theory Spec2Isabelle
  imports Main "HOL-Library.Multiset"
begin

section \<open>JavaScript values, promises and the timer queue\<close>

text \<open>
  The script \<^verbatim>\<open>practice/script.js\<close> uses numbers, strings and \<^verbatim>\<open>undefined\<close>; the
  examples of \<^verbatim>\<open>Readme.md\<close> add arrays, objects with named properties, \<^verbatim>\<open>null\<close> and
  error objects (identified here by their name).
\<close>

datatype jsval =
    JUndefined
  | JNull
  | JNumber int
  | JString string
  | JArray "jsval list"
  | JObject "(string \<times> jsval) list"
  | JError string

text \<open>A settled promise is fulfilled with a value or rejected with a reason.\<close>

datatype 'a outcome = Fulfilled 'a | Rejected jsval

text \<open>
  The only closure the script hands to \<^verbatim>\<open>setTimeout\<close> is the arrow function of
  \<^verbatim>\<open>getData\<close>; it captures \<^verbatim>\<open>dataID\<close> and the \<^verbatim>\<open>resolve\<close> function of the promise
  being built. A closure is therefore the pair of the captured \<^verbatim>\<open>dataID\<close> and the handle
  of that promise.
\<close>

datatype callback = GetDataTimeout jsval nat

text \<open>
  The runtime state the script acts on: the clock in milliseconds, the pending timers in
  the order \<^verbatim>\<open>setTimeout\<close> registered them (due time and closure), the promise store (a
  handle is an index; \<open>None\<close> is a pending promise), and the lines written by
  \<^verbatim>\<open>console.log\<close> (one argument list per line). The clock is the event loop's logical
  time: it reads the due time of the latest timer that has run. A delay given to
  \<^verbatim>\<open>setTimeout\<close> is a lower bound in the runtime, so the real time is never behind this
  clock and may be ahead of it; nothing below is a statement about elapsed real time. The
  state holds the promises and timers only, not the functions suspended on a promise: it
  describes the run of one caller, and a timer pending in it belongs to a fetch whose
  promise no other suspended function waits for. The field \<open>trace\<close> is an observer's
  record, not program state: \<^verbatim>\<open>getAllData\<close> appends \<open>Issued dataID\<close> when it calls the
  fetch function with \<open>dataID\<close>, and \<open>Resumed dataID r\<close> when its \<^verbatim>\<open>await\<close> of that
  fetch resumes with the outcome \<open>r\<close>.
\<close>

datatype event = Issued jsval | Resumed jsval "jsval outcome"

record world =
  now :: nat
  timers :: "(nat \<times> callback) list"
  promises :: "jsval outcome option list"
  console :: "jsval list list"
  trace :: "event list"

definition console_log :: "jsval list \<Rightarrow> world \<Rightarrow> world" where
  "console_log args w = w\<lparr>console := console w @ [args]\<rparr>"

text \<open>\<^verbatim>\<open>new Promise(...)\<close>: a fresh pending promise; its handle is the next free index.\<close>

definition new_promise :: "world \<Rightarrow> nat \<times> world" where
  "new_promise w = (length (promises w), w\<lparr>promises := promises w @ [None]\<rparr>)"

text \<open>
  \<^verbatim>\<open>setTimeout(cb, ms)\<close>: the closure becomes due \<open>ms\<close> milliseconds from now, which is
  the earliest time at which the runtime runs it.
\<close>

definition setTimeout :: "callback \<Rightarrow> nat \<Rightarrow> world \<Rightarrow> world" where
  "setTimeout cb ms w = w\<lparr>timers := timers w @ [(now w + ms, cb)]\<rparr>"

text \<open>
  \<^verbatim>\<open>resolve(v)\<close> with a value that is not a thenable: a pending promise becomes
  fulfilled; a settled promise is left as it is.
\<close>

definition resolve :: "nat \<Rightarrow> jsval \<Rightarrow> world \<Rightarrow> world" where
  "resolve p v w =
     (if p < length (promises w) \<and> promises w ! p = None
      then w\<lparr>promises := (promises w)[p := Some (Fulfilled v)]\<rparr>
      else w)"

text \<open>
  The body of the timer closure of \<^verbatim>\<open>getData\<close>:
  \<^verbatim>\<open>console.log("data", dataID); resolve(200);\<close>
\<close>

fun run_callback :: "callback \<Rightarrow> world \<Rightarrow> world" where
  "run_callback (GetDataTimeout dataID p) w =
     resolve p (JNumber 200) (console_log [JString ''data'', dataID] w)"

text \<open>
  \<^verbatim>\<open>function getData(dataID)\<close>: builds a promise whose executor registers the timer
  closure with a delay of 3000 ms, and returns the promise. The executor never calls
  \<^verbatim>\<open>reject\<close>.
\<close>

definition getData :: "jsval \<Rightarrow> world \<Rightarrow> nat \<times> world" where
  "getData dataID w =
     (let (p, w1) = new_promise w
      in (p, setTimeout (GetDataTimeout dataID p) 3000 w1))"

subsection \<open>The event loop\<close>

text \<open>
  The timer phase of the event loop runs the pending timer with the least due time; among
  timers due at the same time the one registered first runs first.
\<close>

fun earliest :: "nat \<times> callback \<Rightarrow> (nat \<times> callback) list \<Rightarrow> nat \<times> callback" where
  "earliest t [] = t"
| "earliest t (u # us) = earliest (if fst u < fst t then u else t) us"

text \<open>
  One turn of the loop: \<open>None\<close> when no timer is pending, otherwise the logical clock
  moves to the due time of the chosen timer (never backwards), the timer leaves the queue
  and its closure runs.
\<close>

definition fire :: "world \<Rightarrow> world option" where
  "fire w =
     (case timers w of
        [] \<Rightarrow> None
      | t # ts \<Rightarrow>
          (let e = earliest t ts
           in Some (run_callback (snd e)
                (w\<lparr>now := max (now w) (fst e), timers := remove1 e (t # ts)\<rparr>))))"

text \<open>
  \<^verbatim>\<open>await p\<close>, seen from the awaiting function: the event loop turns until the promise
  \<open>p\<close> is settled, and the function resumes with the outcome. When \<open>p\<close> is pending and
  no timer is left, the function never resumes: the result is \<open>None\<close>. Only the awaiting
  function is resumed: the state holds no other suspended function, so what another
  caller would print when one of the timers settles its promise is not part of the run.
\<close>

function await :: "nat \<Rightarrow> world \<Rightarrow> (jsval outcome \<times> world) option" where
  "await p w =
     (case (if p < length (promises w) then promises w ! p else None) of
        Some r \<Rightarrow> Some (r, w)
      | None \<Rightarrow>
          (case fire w of
             None \<Rightarrow> None
           | Some w' \<Rightarrow> await p w'))"
  by pat_completeness auto
termination
proof (relation "measure (\<lambda>(p, w). length (timers w))", goal_cases)
  case 1
  show ?case by simp
next
  case (2 p w w')
  have mem: "earliest t ts \<in> set (t # ts)" for t :: "nat \<times> callback" and ts
    by (induction ts arbitrary: t) auto
  have keep: "timers (run_callback cb v) = timers v" for cb v
    by (cases cb) (simp add: resolve_def console_log_def)
  from 2 obtain t ts where ts: "timers w = t # ts"
    by (cases "timers w") (auto simp: fire_def)
  with 2 have "timers w' = remove1 (earliest t ts) (t # ts)"
    by (auto simp: fire_def Let_def keep)
  moreover from mem [of t ts]
  have "length (remove1 (earliest t ts) (t # ts)) < length (t # ts)"
    by (simp only: length_remove1 if_True) simp
  ultimately show ?case using ts by simp
qed

declare await.simps [simp del]

section \<open>The sequential await chain of the script\<close>

text \<open>
  A call of the fetch function as the observer sees it: the call itself, and the event
  \<open>Issued dataID\<close> in the trace.
\<close>

definition call :: "(jsval \<Rightarrow> world \<Rightarrow> nat \<times> world) \<Rightarrow> jsval \<Rightarrow> world \<Rightarrow> nat \<times> world" where
  "call gd dataID w =
     (let (p, w') = gd dataID w
      in (p, w'\<lparr>trace := trace w @ [Issued dataID]\<rparr>))"

text \<open>
  One pair of statements of \<^verbatim>\<open>getAllData\<close>:
  \<^verbatim>\<open>console.log(msg); await getData(dataID);\<close>
  The result is what the \<^verbatim>\<open>await\<close> resumes with; the observer notes the resumption.
\<close>

definition log_then_await ::
  "(jsval \<Rightarrow> world \<Rightarrow> nat \<times> world) \<Rightarrow> string \<Rightarrow> jsval \<Rightarrow> world \<Rightarrow> (jsval outcome \<times> world) option" where
  "log_then_await gd msg dataID w =
     (let (p, w') = call gd dataID (console_log [JString msg] w)
      in case await p w' of
           None \<Rightarrow> None
         | Some (r, w'') \<Rightarrow> Some (r, w''\<lparr>trace := trace w'' @ [Resumed dataID r]\<rparr>))"

text \<open>
  \<^verbatim>\<open>async function getAllData()\<close>, with the function it calls under the global name
  \<^verbatim>\<open>getData\<close> as the parameter \<open>gd\<close>. An \<^verbatim>\<open>await\<close> that resumes with a rejection throws;
  nothing in the body catches, so the promise of \<^verbatim>\<open>getAllData\<close> is rejected with the same
  reason and the statements after the \<^verbatim>\<open>await\<close> do not run. A fulfilled value is not bound
  to anything. The body has no \<^verbatim>\<open>return\<close>: when its last \<^verbatim>\<open>await\<close> resumes, the promise of
  \<^verbatim>\<open>getAllData\<close> is fulfilled with \<^verbatim>\<open>undefined\<close>. The result is the outcome of that promise,
  or \<open>None\<close> when an \<^verbatim>\<open>await\<close> never resumes.
\<close>

definition getAllData_with ::
  "(jsval \<Rightarrow> world \<Rightarrow> nat \<times> world) \<Rightarrow> world \<Rightarrow> (jsval outcome \<times> world) option" where
  "getAllData_with gd w0 =
     (case log_then_await gd ''getting data 1'' (JNumber 1) w0 of
        None \<Rightarrow> None
      | Some (Rejected e, w1) \<Rightarrow> Some (Rejected e, w1)
      | Some (Fulfilled v1, w1) \<Rightarrow>
     (case log_then_await gd ''getting data 2'' (JNumber 2) w1 of
        None \<Rightarrow> None
      | Some (Rejected e, w2) \<Rightarrow> Some (Rejected e, w2)
      | Some (Fulfilled v2, w2) \<Rightarrow>
     (case log_then_await gd ''getting data 3'' (JNumber 3) w2 of
        None \<Rightarrow> None
      | Some (Rejected e, w3) \<Rightarrow> Some (Rejected e, w3)
      | Some (Fulfilled v3, w3) \<Rightarrow> Some (Fulfilled JUndefined, w3))))"

definition getAllData :: "world \<Rightarrow> (jsval outcome \<times> world) option" where
  "getAllData = getAllData_with getData"

text \<open>A single fetch, awaited: \<^verbatim>\<open>await getData(dataID)\<close>.\<close>

definition await_getData :: "jsval \<Rightarrow> world \<Rightarrow> (jsval outcome \<times> world) option" where
  "await_getData dataID w = (let (p, w') = getData dataID w in await p w')"

text \<open>What the caller of an asynchronous function observes of its promise.\<close>

definition settled :: "('a outcome \<times> 'w) option \<Rightarrow> 'a outcome option" where
  "settled r = map_option fst r"

text \<open>The values of a composed result, when the outcome is a fulfilled array.\<close>

fun sequence_result :: "jsval outcome option \<Rightarrow> jsval list option" where
  "sequence_result (Some (Fulfilled (JArray vs))) = Some vs"
| "sequence_result r = None"

text \<open>The state in which the script starts: clock at zero, nothing pending or printed.\<close>

definition world0 :: world where
  "world0 = \<lparr>now = 0, timers = [], promises = [], console = [], trace = []\<rparr>"

text \<open>
  A state in the middle of a run: two earlier fetches are still pending (their timers are
  due at 700 and at 600), and a line has been printed.
\<close>

definition busy_world :: world where
  "busy_world =
     \<lparr>now = 500,
      timers = [(700, GetDataTimeout (JString ''a'') 0), (600, GetDataTimeout JNull 1)],
      promises = [None, None],
      console = [[JString ''earlier'']],
      trace = []\<rparr>"

section \<open>The asynchronous patterns of the guide\<close>

text \<open>
  \<^verbatim>\<open>Readme.md\<close> gives \<^verbatim>\<open>getMultipleUsers\<close> and \<^verbatim>\<open>robustGetUserData\<close> in full, but not the
  functions \<^verbatim>\<open>fetchFromDatabase\<close>, \<^verbatim>\<open>fetchUserPosts\<close> and \<^verbatim>\<open>fetchPostComments\<close> they call:
  these are parameters here. Each returns a promise; what matters of it is the outcome it
  settles with and, for \<^verbatim>\<open>Promise.all\<close>, the time after which it settles. The posts are an
  array (the guide initialises them with \<^verbatim>\<open>[]\<close> and reads \<^verbatim>\<open>posts.length\<close> and \<^verbatim>\<open>posts[0]\<close>).
\<close>

datatype console_method = ConsoleWarn | ConsoleError

text \<open>
  The effects of the guide's functions: the lines written with \<^verbatim>\<open>console.warn\<close> and
  \<^verbatim>\<open>console.error\<close>, and an observer's record of the fetch functions called (name and
  argument), in call order.
\<close>

record effects =
  printed :: "(console_method \<times> jsval list) list"
  requested :: "(string \<times> jsval) list"

definition print_line :: "console_method \<Rightarrow> jsval list \<Rightarrow> effects \<Rightarrow> effects" where
  "print_line m args t = t\<lparr>printed := printed t @ [(m, args)]\<rparr>"

definition request :: "string \<Rightarrow> jsval \<Rightarrow> effects \<Rightarrow> effects" where
  "request name arg t = t\<lparr>requested := requested t @ [(name, arg)]\<rparr>"

definition effects0 :: effects where
  "effects0 = \<lparr>printed = [], requested = []\<rparr>"

text \<open>
  The property read \<^verbatim>\<open>x.id\<close>: a \<^verbatim>\<open>TypeError\<close> is thrown (\<open>Inl\<close>) when \<open>x\<close> is
  \<^verbatim>\<open>undefined\<close> or \<^verbatim>\<open>null\<close>; an object yields the value stored under \<^verbatim>\<open>id\<close>, or
  \<^verbatim>\<open>undefined\<close> when it has none; every other value has no such property.
\<close>

fun get_id :: "jsval \<Rightarrow> jsval + jsval" where
  "get_id JUndefined = Inl (JError ''TypeError'')"
| "get_id JNull = Inl (JError ''TypeError'')"
| "get_id (JObject kvs) = Inr (case map_of kvs ''id'' of None \<Rightarrow> JUndefined | Some v \<Rightarrow> v)"
| "get_id x = Inr JUndefined"

subsection \<open>Promise.all\<close>

text \<open>
  A promise returned by a fetch function is the pair of the time after which it settles
  and its outcome. \<^verbatim>\<open>Promise.all\<close> keeps an array of values with one slot per input
  promise (initially \<^verbatim>\<open>undefined\<close>), a count of the promises not yet fulfilled, and the
  outcome of its own promise once settled. The reaction to the promise at index \<open>i\<close>:
  a fulfilment stores the value in slot \<open>i\<close>, decrements the count and, at zero, fulfils
  the result with the array; a rejection rejects the result. Settling a settled result
  changes nothing.
\<close>

type_synonym all_state = "jsval list \<times> nat \<times> jsval list outcome option"

fun all_step :: "nat \<times> jsval outcome \<Rightarrow> all_state \<Rightarrow> all_state" where
  "all_step (i, Fulfilled v) (vals, remaining, res) =
     (let vals' = vals[i := v]; remaining' = remaining - 1
      in (vals', remaining',
          if res = None \<and> remaining' = 0 then Some (Fulfilled vals') else res))"
| "all_step (i, Rejected e) (vals, remaining, res) =
     (vals, remaining, if res = None then Some (Rejected e) else res)"

text \<open>
  The reactions run in completion order: by settle time, and in the order of the input
  among promises that settle at the same time.
\<close>

definition completion_order :: "(nat \<times> jsval outcome) list \<Rightarrow> (nat \<times> jsval outcome) list" where
  "completion_order ps =
     map snd (sort_key fst (map (\<lambda>(i, (d, r)). (d, (i, r))) (enumerate 0 ps)))"

text \<open>
  \<^verbatim>\<open>Promise.all(ps)\<close>: the outcome of the result promise (\<open>None\<close>: it never settles).
  With no input promise the result is fulfilled with the empty array at once.
\<close>

definition promise_all :: "(nat \<times> jsval outcome) list \<Rightarrow> jsval list outcome option" where
  "promise_all ps =
     snd (snd (fold all_step (completion_order ps)
       (replicate (length ps) JUndefined, length ps,
        if ps = [] then Some (Fulfilled []) else None)))"

text \<open>
  The array of values after a series of fulfilments, each given as the index of its promise
  and the value: the writes \<open>all_step\<close> makes to the slots, on their own.
\<close>

definition store :: "(nat \<times> jsval) list \<Rightarrow> jsval list \<Rightarrow> jsval list" where
  "store ivs vals = fold (\<lambda>(i, v) vs. vs[i := v]) ivs vals"

text \<open>
  \<^verbatim>\<open>async function getMultipleUsers(userIds)\<close>: the \<^verbatim>\<open>map\<close> calls \<^verbatim>\<open>fetchFromDatabase\<close>
  for every id, in order, before anything is awaited; the \<^verbatim>\<open>catch\<close> block prints the error
  and throws it again.
\<close>

definition getMultipleUsers ::
  "(jsval \<Rightarrow> nat \<times> jsval outcome) \<Rightarrow> jsval list \<Rightarrow> effects \<Rightarrow> jsval outcome option \<times> effects" where
  "getMultipleUsers fetchFromDatabase userIds t =
     (let userPromises = map fetchFromDatabase userIds;
          t1 = fold (request ''fetchFromDatabase'') userIds t
      in case promise_all userPromises of
           None \<Rightarrow> (None, t1)
         | Some (Fulfilled users) \<Rightarrow> (Some (Fulfilled (JArray users)), t1)
         | Some (Rejected error) \<Rightarrow>
             (Some (Rejected error), print_line ConsoleError [JString ''Error:'', error] t1))"

text \<open>
  Settle times under which the fetches complete in the reverse of the order in which
  they are issued: the fetch of id \<open>n\<close> settles after \<open>4000 - 1000 * n\<close> ms.
\<close>

definition slow_first :: "jsval \<Rightarrow> nat" where
  "slow_first x = (case x of JNumber n \<Rightarrow> nat (4000 - 1000 * n) | _ \<Rightarrow> 0)"

subsection \<open>The tolerant chain\<close>

text \<open>
  \<^verbatim>\<open>async function robustGetUserData(userId)\<close>. The three stages are awaited one after the
  other, so only the outcomes of the fetch functions matter. The second and third stage
  each sit in a \<^verbatim>\<open>try\<close> of their own whose \<^verbatim>\<open>catch\<close> prints a warning and leaves the
  default \<^verbatim>\<open>[]\<close> in place; that \<^verbatim>\<open>try\<close> also covers the property reads \<^verbatim>\<open>user.id\<close> and
  \<^verbatim>\<open>posts[0].id\<close>. The third fetch is made only when \<^verbatim>\<open>posts.length > 0\<close>. The outer
  \<^verbatim>\<open>catch\<close> prints the error and throws it again.
\<close>

definition robustGetUserData ::
  "(jsval \<Rightarrow> jsval outcome) \<Rightarrow> (jsval \<Rightarrow> jsval list outcome) \<Rightarrow> (jsval \<Rightarrow> jsval outcome) \<Rightarrow>
   jsval \<Rightarrow> effects \<Rightarrow> jsval outcome \<times> effects" where
  "robustGetUserData fetchFromDatabase fetchUserPosts fetchPostComments userId t =
     (let t1 = request ''fetchFromDatabase'' userId t
      in case fetchFromDatabase userId of
           Rejected error \<Rightarrow>
             (Rejected error, print_line ConsoleError [JString ''Critical error:'', error] t1)
         | Fulfilled user \<Rightarrow>
             (let (posts, t2) =
                    (case get_id user of
                       Inl error \<Rightarrow>
                         ([], print_line ConsoleWarn
                            [JString ''Failed to fetch posts, continuing with empty array''] t1)
                     | Inr uid \<Rightarrow>
                         (case fetchUserPosts uid of
                            Rejected error \<Rightarrow>
                              ([], print_line ConsoleWarn
                                 [JString ''Failed to fetch posts, continuing with empty array'']
                                 (request ''fetchUserPosts'' uid t1))
                          | Fulfilled ps \<Rightarrow> (ps, request ''fetchUserPosts'' uid t1)));
                  (comments, t3) =
                    (case posts of
                       [] \<Rightarrow> (JArray [], t2)
                     | post # rest \<Rightarrow>
                         (case get_id post of
                            Inl error \<Rightarrow>
                              (JArray [], print_line ConsoleWarn
                                 [JString ''Failed to fetch comments, continuing with empty array''] t2)
                          | Inr pid \<Rightarrow>
                              (case fetchPostComments pid of
                                 Rejected error \<Rightarrow>
                                   (JArray [], print_line ConsoleWarn
                                      [JString ''Failed to fetch comments, continuing with empty array'']
                                      (request ''fetchPostComments'' pid t2))
                               | Fulfilled cs \<Rightarrow> (cs, request ''fetchPostComments'' pid t2))))
              in (Fulfilled (JObject [(''user'', user), (''posts'', JArray posts),
                    (''comments'', comments)]), t3)))"

section \<open>Facts about the event loop\<close>

lemma await_settled:
  "p < length (promises w) \<Longrightarrow> promises w ! p = Some r \<Longrightarrow> await p w = Some (r, w)"
  by (subst await.simps) simp

lemma await_pending:
  "p < length (promises w) \<Longrightarrow> promises w ! p = None \<Longrightarrow>
   await p w = (case fire w of None \<Rightarrow> None | Some w' \<Rightarrow> await p w')"
  by (subst await.simps) simp

lemma earliest_mem: "earliest t ts \<in> set (t # ts)"
  by (induction ts arbitrary: t) auto

lemma fire_Some:
  assumes "timers w \<noteq> []"
  obtains e d q where
    "e \<in> set (timers w)" "snd e = GetDataTimeout d q"
    "fire w = Some (run_callback (GetDataTimeout d q)
       (w\<lparr>now := max (now w) (fst e), timers := remove1 e (timers w)\<rparr>))"
proof -
  from assms obtain t ts where ts: "timers w = t # ts"
    by (cases "timers w") auto
  obtain d q where cb: "snd (earliest t ts) = GetDataTimeout d q"
    by (cases "snd (earliest t ts)") auto
  have "earliest t ts \<in> set (timers w)"
    using earliest_mem [of t ts] ts by simp
  moreover have "fire w = Some (run_callback (GetDataTimeout d q)
       (w\<lparr>now := max (now w) (fst (earliest t ts)),
          timers := remove1 (earliest t ts) (timers w)\<rparr>))"
    using ts cb by (simp add: fire_def Let_def)
  ultimately show thesis using cb that by blast
qed

lemma await_armed:
  assumes "p < length (promises w)"
    and "promises w ! p = None \<Longrightarrow> \<exists>t d. (t, GetDataTimeout d p) \<in> set (timers w)"
    and "promises w ! p = None \<or> promises w ! p = Some (Fulfilled (JNumber 200))"
  shows "\<exists>w'. await p w = Some (Fulfilled (JNumber 200), w')"
  using assms
proof (induction p w rule: await.induct)
  case (1 p w)
  show ?case
  proof (cases "promises w ! p")
    case (Some r)
    with "1.prems" show ?thesis by (simp add: await_settled)
  next
    case None
    with "1.prems"(2) obtain t0 d0 where mine: "(t0, GetDataTimeout d0 p) \<in> set (timers w)"
      by blast
    then have "timers w \<noteq> []" by auto
    then obtain e d q where e: "e \<in> set (timers w)" "snd e = GetDataTimeout d q"
      and f: "fire w = Some (run_callback (GetDataTimeout d q)
         (w\<lparr>now := max (now w) (fst e), timers := remove1 e (timers w)\<rparr>))"
      by (rule fire_Some)
    define w' where "w' = run_callback (GetDataTimeout d q)
         (w\<lparr>now := max (now w) (fst e), timers := remove1 e (timers w)\<rparr>)"
    have len: "p < length (promises w')"
      using "1.prems"(1) by (simp add: w'_def resolve_def console_log_def)
    have tm: "timers w' = remove1 e (timers w)"
      by (simp add: w'_def resolve_def console_log_def)
    have val: "promises w' ! p = (if q = p then Some (Fulfilled (JNumber 200)) else None)"
      using "1.prems"(1) None by (simp add: w'_def resolve_def console_log_def)
    have arm: "\<exists>t d. (t, GetDataTimeout d p) \<in> set (timers w')" if "promises w' ! p = None"
    proof -
      from that val have "q \<noteq> p" by (simp split: if_splits)
      with e have "(t0, GetDataTimeout d0 p) \<noteq> e" by auto
      with mine have "(t0, GetDataTimeout d0 p) \<in> set (remove1 e (timers w))"
        by (simp add: in_set_remove1)
      with tm show ?thesis by auto
    qed
    have "\<exists>w''. await p w' = Some (Fulfilled (JNumber 200), w'')"
    proof (rule "1.IH")
      show "(if p < length (promises w) then promises w ! p else None) = None"
        using None by simp
      show "fire w = Some w'" using f by (simp add: w'_def)
      show "p < length (promises w')" by (rule len)
      show "\<exists>t d. (t, GetDataTimeout d p) \<in> set (timers w')" if "promises w' ! p = None"
        using that by (rule arm)
      show "promises w' ! p = None \<or> promises w' ! p = Some (Fulfilled (JNumber 200))"
        using val by simp
    qed
    moreover have "await p w = await p w'"
      using "1.prems"(1) None f by (simp add: await_pending w'_def)
    ultimately show ?thesis by simp
  qed
qed

lemma getData_armed:
  assumes "getData d w = (p, w')"
  shows "p < length (promises w')" "promises w' ! p = None"
    "(now w + 3000, GetDataTimeout d p) \<in> set (timers w')"
  using assms by (auto simp: getData_def new_promise_def setTimeout_def)

lemma await_getData_fulfils: "\<exists>w'. await_getData d w = Some (Fulfilled (JNumber 200), w')"
proof -
  obtain p w1 where g: "getData d w = (p, w1)" by (cases "getData d w")
  have "\<exists>w'. await p w1 = Some (Fulfilled (JNumber 200), w')"
    using getData_armed [OF g] by (intro await_armed) auto
  with g show ?thesis by (simp add: await_getData_def)
qed

lemma log_then_await_fulfils:
  "\<exists>w'. log_then_await getData msg d w = Some (Fulfilled (JNumber 200), w')"
proof -
  obtain p w1 where g: "getData d (console_log [JString msg] w) = (p, w1)"
    by (cases "getData d (console_log [JString msg] w)")
  define w2 where "w2 = w1\<lparr>trace := trace (console_log [JString msg] w) @ [Issued d]\<rparr>"
  have "\<exists>w'. await p w2 = Some (Fulfilled (JNumber 200), w')"
    using getData_armed [OF g] by (intro await_armed) (auto simp: w2_def)
  with g show ?thesis by (auto simp: log_then_await_def call_def w2_def)
qed

lemma getAllData_fulfils: "\<exists>w'. getAllData w = Some (Fulfilled JUndefined, w')"
proof -
  obtain w1 where 1: "log_then_await getData ''getting data 1'' (JNumber 1) w
      = Some (Fulfilled (JNumber 200), w1)"
    using log_then_await_fulfils by blast
  obtain w2 where 2: "log_then_await getData ''getting data 2'' (JNumber 2) w1
      = Some (Fulfilled (JNumber 200), w2)"
    using log_then_await_fulfils by blast
  obtain w3 where 3: "log_then_await getData ''getting data 3'' (JNumber 3) w2
      = Some (Fulfilled (JNumber 200), w3)"
    using log_then_await_fulfils by blast
  from 1 2 3 show ?thesis by (simp add: getAllData_def getAllData_with_def)
qed

lemma log_then_await_quiescent:
  assumes "timers w = []"
  shows "log_then_await getData msg d w =
     Some (Fulfilled (JNumber 200),
       w\<lparr>now := now w + 3000,
         promises := promises w @ [Some (Fulfilled (JNumber 200))],
         console := console w @ [[JString msg], [JString ''data'', d]],
         trace := trace w @ [Issued d, Resumed d (Fulfilled (JNumber 200))]\<rparr>)"
  using assms
  by (simp add: log_then_await_def call_def getData_def new_promise_def setTimeout_def
      console_log_def await_pending await_settled fire_def resolve_def Let_def nth_append)

lemma await_getData_quiescent:
  assumes "timers w = []"
  shows "await_getData d w =
     Some (Fulfilled (JNumber 200),
       w\<lparr>now := now w + 3000,
         promises := promises w @ [Some (Fulfilled (JNumber 200))],
         console := console w @ [[JString ''data'', d]]\<rparr>)"
  using assms
  by (simp add: await_getData_def getData_def new_promise_def setTimeout_def
      console_log_def await_pending await_settled fire_def resolve_def Let_def nth_append)

lemma getAllData_quiescent:
  assumes "timers w = []"
  shows "getAllData w =
     Some (Fulfilled JUndefined,
       w\<lparr>now := now w + 9000,
         promises := promises w @ [Some (Fulfilled (JNumber 200)),
           Some (Fulfilled (JNumber 200)), Some (Fulfilled (JNumber 200))],
         console := console w @
           [[JString ''getting data 1''], [JString ''data'', JNumber 1],
            [JString ''getting data 2''], [JString ''data'', JNumber 2],
            [JString ''getting data 3''], [JString ''data'', JNumber 3]],
         trace := trace w @
           [Issued (JNumber 1), Resumed (JNumber 1) (Fulfilled (JNumber 200)),
            Issued (JNumber 2), Resumed (JNumber 2) (Fulfilled (JNumber 200)),
            Issued (JNumber 3), Resumed (JNumber 3) (Fulfilled (JNumber 200))]\<rparr>)"
  using assms
  by (simp add: getAllData_def getAllData_with_def log_then_await_quiescent)

lemma fire_trace: "fire w = Some w' \<Longrightarrow> trace w' = trace w"
  by (cases "timers w"; cases "snd (earliest (hd (timers w)) (tl (timers w)))")
     (auto simp: fire_def Let_def resolve_def console_log_def)

lemma await_trace: "await p w = Some (r, w') \<Longrightarrow> trace w' = trace w"
proof (induction p w rule: await.induct)
  case (1 p w)
  show ?case
  proof (cases "if p < length (promises w) then promises w ! p else None")
    case (Some a)
    with "1.prems" show ?thesis by (subst (asm) await.simps) simp
  next
    case None
    with "1.prems" obtain v where f: "fire w = Some v" and a: "await p v = Some (r, w')"
      by (subst (asm) await.simps) (auto split: option.splits)
    from "1.IH" [OF None f a] fire_trace [OF f] show ?thesis by simp
  qed
qed

lemma log_then_await_trace:
  assumes "log_then_await gd msg d w = Some (r, w')"
  shows "trace w' = trace w @ [Issued d, Resumed d r]"
proof -
  obtain p v where g: "gd d (console_log [JString msg] w) = (p, v)"
    by (cases "gd d (console_log [JString msg] w)")
  with assms obtain u where u: "await p (v\<lparr>trace := trace w @ [Issued d]\<rparr>) = Some (r, u)"
    and w': "w' = u\<lparr>trace := trace u @ [Resumed d r]\<rparr>"
    by (auto simp: log_then_await_def call_def console_log_def split: option.splits)
  from await_trace [OF u] w' show ?thesis by simp
qed

section \<open>Facts about Promise.all\<close>

lemma store_Nil: "store [] vals = vals"
  by (simp add: store_def)

lemma store_Cons: "store ((i, v) # ivs) vals = store ivs (vals[i := v])"
  by (simp add: store_def)

lemma length_store: "length (store ivs vals) = length vals"
  by (induction ivs arbitrary: vals) (auto simp: store_Nil store_Cons)

lemma store_other: "i \<notin> fst ` set ivs \<Longrightarrow> store ivs vals ! i = vals ! i"
  by (induction ivs arbitrary: vals) (auto simp: store_Nil store_Cons)

lemma store_nth:
  "distinct (map fst ivs) \<Longrightarrow> (i, v) \<in> set ivs \<Longrightarrow> i < length vals \<Longrightarrow> store ivs vals ! i = v"
proof (induction ivs arbitrary: vals)
  case Nil
  then show ?case by simp
next
  case (Cons a ivs)
  obtain j u where a: "a = (j, u)" by (cases a)
  show ?case
  proof (cases "(i, v) = a")
    case True
    with Cons.prems a have "i \<notin> fst ` set ivs" by auto
    then have "store ivs (vals[i := v]) ! i = vals[i := v] ! i" by (rule store_other)
    with True a Cons.prems(3) show ?thesis by (simp add: store_Cons)
  next
    case False
    with Cons.prems a have "(i, v) \<in> set ivs" "distinct (map fst ivs)" by auto
    with Cons.IH [of "vals[j := u]"] Cons.prems(3) a show ?thesis
      by (simp add: store_Cons)
  qed
qed

lemma fold_all_step_fulfilled:
  "length ivs \<le> remaining \<Longrightarrow>
   fold all_step (map (\<lambda>(i, v). (i, Fulfilled v)) ivs) (vals, remaining, None) =
     (store ivs vals, remaining - length ivs,
      if ivs \<noteq> [] \<and> remaining = length ivs then Some (Fulfilled (store ivs vals)) else None)"
proof (induction ivs arbitrary: vals remaining)
  case Nil
  then show ?case by (simp add: store_Nil)
next
  case (Cons a ivs)
  obtain i v where a: "a = (i, v)" by (cases a)
  show ?case
  proof (cases "ivs = []")
    case True
    with a Cons.prems show ?thesis by (auto simp: store_Cons store_Nil Let_def)
  next
    case False
    then obtain b bs where "ivs = b # bs" by (cases ivs) auto
    with Cons.prems have r: "remaining - 1 \<noteq> 0" "length ivs \<le> remaining - 1" by simp_all
    from r(1) have "fold all_step (map (\<lambda>(i, v). (i, Fulfilled v)) (a # ivs)) (vals, remaining, None)
        = fold all_step (map (\<lambda>(i, v). (i, Fulfilled v)) ivs) (vals[i := v], remaining - 1, None)"
      using a by (simp add: Let_def)
    also have "\<dots> = (store ivs (vals[i := v]), remaining - 1 - length ivs,
        if ivs \<noteq> [] \<and> remaining - 1 = length ivs
        then Some (Fulfilled (store ivs (vals[i := v]))) else None)"
      using r(2) by (rule Cons.IH)
    finally show ?thesis using a False Cons.prems by (auto simp: store_Cons)
  qed
qed

lemma completion_order_mset:
  "mset (completion_order ps) = mset (enumerate 0 (map snd ps))"
proof -
  have "mset (completion_order ps)
      = mset (map snd (map (\<lambda>(i, (d, r)). (d, (i, r))) (enumerate 0 ps)))"
    by (simp only: completion_order_def mset_map mset_sort)
  also have "map snd (map (\<lambda>(i, (d, r)). (d, (i, r))) (enumerate 0 ps))
      = enumerate 0 (map snd ps)"
    by (simp add: enumerate_eq_zip zip_map2 case_prod_unfold)
  finally show ?thesis .
qed

lemma promise_all_fulfilled:
  "promise_all (map (\<lambda>(d, v). (d, Fulfilled v)) dvs) = Some (Fulfilled (map snd dvs))"
proof (cases "dvs = []")
  case True
  then show ?thesis by (simp add: promise_all_def completion_order_def)
next
  case False
  let ?ps = "map (\<lambda>(d, v). (d, Fulfilled v)) dvs"
  let ?n = "length dvs"
  define es where "es = completion_order ?ps"
  define ivs where
    "ivs = map (\<lambda>(i, r). (i, case r of Fulfilled v \<Rightarrow> v | Rejected e \<Rightarrow> JUndefined)) es"
  have ms: "mset es = mset (enumerate 0 (map (\<lambda>(d, v). Fulfilled v) dvs))"
    by (simp add: es_def completion_order_mset comp_def case_prod_unfold)
  have "enumerate 0 (map (\<lambda>(d, v). Fulfilled v) dvs)
      = map (\<lambda>(i, v). (i, Fulfilled v)) (enumerate 0 (map snd dvs))"
    by (simp add: enumerate_eq_zip zip_map2 case_prod_unfold)
  with ms have ms': "mset es = mset (map (\<lambda>(i, v). (i, Fulfilled v)) (enumerate 0 (map snd dvs)))"
    by simp
  have set_es: "set es = (\<lambda>(i, v). (i, Fulfilled v)) ` set (enumerate 0 (map snd dvs))"
    using mset_eq_setD [OF ms'] by simp
  have "map ((\<lambda>(i, v). (i, Fulfilled v)) \<circ>
      (\<lambda>(i, r). (i, case r of Fulfilled v \<Rightarrow> v | Rejected e \<Rightarrow> JUndefined))) es = es"
  proof (rule map_idI)
    fix x
    assume "x \<in> set es"
    with set_es obtain i v where "x = (i, Fulfilled v)" by auto
    then show "((\<lambda>(i, v). (i, Fulfilled v)) \<circ>
      (\<lambda>(i, r). (i, case r of Fulfilled v \<Rightarrow> v | Rejected e \<Rightarrow> JUndefined))) x = x"
      by simp
  qed
  then have es_ivs: "es = map (\<lambda>(i, v). (i, Fulfilled v)) ivs"
    by (simp add: ivs_def)
  have "image_mset (\<lambda>(i, r). (i, case r of Fulfilled v \<Rightarrow> v | Rejected e \<Rightarrow> JUndefined)) (mset es)
      = image_mset (\<lambda>(i, r). (i, case r of Fulfilled v \<Rightarrow> v | Rejected e \<Rightarrow> JUndefined))
          (mset (map (\<lambda>(i, v). (i, Fulfilled v)) (enumerate 0 (map snd dvs))))"
    using ms' by (rule arg_cong)
  then have "mset ivs = mset (map (\<lambda>(i, r). (i, case r of Fulfilled v \<Rightarrow> v | Rejected e \<Rightarrow> JUndefined))
      (map (\<lambda>(i, v). (i, Fulfilled v)) (enumerate 0 (map snd dvs))))"
    by (simp only: ivs_def mset_map)
  then have ms_ivs: "mset ivs = mset (enumerate 0 (map snd dvs))"
    by (simp add: comp_def case_prod_unfold)
  have len: "length ivs = ?n"
    using mset_eq_length [OF ms_ivs] by simp
  have "image_mset fst (mset ivs) = image_mset fst (mset (enumerate 0 (map snd dvs)))"
    using ms_ivs by (rule arg_cong)
  then have "mset (map fst ivs) = mset (map fst (enumerate 0 (map snd dvs)))"
    by (simp only: mset_map)
  then have "distinct (map fst ivs) = distinct (map fst (enumerate 0 (map snd dvs)))"
    by (rule mset_eq_imp_distinct_iff)
  then have dist: "distinct (map fst ivs)"
    by simp
  have mem: "(i, snd (dvs ! i)) \<in> set ivs" if "i < ?n" for i
  proof -
    from that have "(i, snd (dvs ! i)) \<in> set (enumerate 0 (map snd dvs))"
      by (simp add: in_set_enumerate_eq)
    with mset_eq_setD [OF ms_ivs] show ?thesis by simp
  qed
  have vals: "store ivs (replicate ?n JUndefined) = map snd dvs"
  proof (rule nth_equalityI)
    show "length (store ivs (replicate ?n JUndefined)) = length (map snd dvs)"
      by (simp add: length_store)
  next
    fix i
    assume "i < length (store ivs (replicate ?n JUndefined))"
    then have i: "i < ?n" by (simp add: length_store)
    then have "store ivs (replicate ?n JUndefined) ! i = snd (dvs ! i)"
      using dist mem by (intro store_nth) simp_all
    with i show "store ivs (replicate ?n JUndefined) ! i = map snd dvs ! i" by simp
  qed
  have ne: "ivs \<noteq> []" using len False by auto
  have "fold all_step es (replicate ?n JUndefined, ?n, None)
      = (store ivs (replicate ?n JUndefined), ?n - length ivs,
         if ivs \<noteq> [] \<and> ?n = length ivs
         then Some (Fulfilled (store ivs (replicate ?n JUndefined))) else None)"
    unfolding es_ivs by (rule fold_all_step_fulfilled) (simp add: len)
  with vals len ne False show ?thesis
    by (simp add: promise_all_def es_def)
qed

section \<open>The sequential chain: order, values and log\<close>

text \<open>
  Claim C1, as amended. \<^verbatim>\<open>getAllData\<close> takes no list of ids and builds no sequence of
  values. In every state it calls \<^verbatim>\<open>getData\<close> for the ids 1, 2 and 3 in this order, and
  it makes each call only after the \<^verbatim>\<open>await\<close> of the fetch before has resumed (with the
  value 200); its own promise is fulfilled with \<^verbatim>\<open>undefined\<close>.
\<close>

theorem getAllData_fetches_in_order:
  "\<exists>w'. getAllData w = Some (Fulfilled JUndefined, w') \<and>
        trace w' = trace w @
          [Issued (JNumber 1), Resumed (JNumber 1) (Fulfilled (JNumber 200)),
           Issued (JNumber 2), Resumed (JNumber 2) (Fulfilled (JNumber 200)),
           Issued (JNumber 3), Resumed (JNumber 3) (Fulfilled (JNumber 200))]"
proof -
  obtain w1 where 1: "log_then_await getData ''getting data 1'' (JNumber 1) w
      = Some (Fulfilled (JNumber 200), w1)"
    using log_then_await_fulfils by blast
  obtain w2 where 2: "log_then_await getData ''getting data 2'' (JNumber 2) w1
      = Some (Fulfilled (JNumber 200), w2)"
    using log_then_await_fulfils by blast
  obtain w3 where 3: "log_then_await getData ''getting data 3'' (JNumber 3) w2
      = Some (Fulfilled (JNumber 200), w3)"
    using log_then_await_fulfils by blast
  have "getAllData w = Some (Fulfilled JUndefined, w3)"
    using 1 2 3 by (simp add: getAllData_def getAllData_with_def)
  moreover have "trace w3 = trace w @
          [Issued (JNumber 1), Resumed (JNumber 1) (Fulfilled (JNumber 200)),
           Issued (JNumber 2), Resumed (JNumber 2) (Fulfilled (JNumber 200)),
           Issued (JNumber 3), Resumed (JNumber 3) (Fulfilled (JNumber 200))]"
    using log_then_await_trace [OF 1] log_then_await_trace [OF 2] log_then_await_trace [OF 3]
    by simp
  ultimately show ?thesis by blast
qed

theorem getAllData_fetches_in_order_witness:
  "\<exists>w'. getAllData busy_world = Some (Fulfilled JUndefined, w') \<and>
        trace w' =
          [Issued (JNumber 1), Resumed (JNumber 1) (Fulfilled (JNumber 200)),
           Issued (JNumber 2), Resumed (JNumber 2) (Fulfilled (JNumber 200)),
           Issued (JNumber 3), Resumed (JNumber 3) (Fulfilled (JNumber 200))]"
  using getAllData_fetches_in_order [of busy_world] by (simp add: busy_world_def)

text \<open>
  Claim C1 as stated fails: run from the initial state, \<^verbatim>\<open>getAllData\<close> does not produce a
  sequence of values at all.
\<close>

theorem getAllData_no_sequence_result:
  "sequence_result (settled (getAllData world0)) = None"
  by (simp add: getAllData_quiescent world0_def settled_def)

text \<open>
  Claim C2, as amended. \<^verbatim>\<open>getAllData\<close> has no delay or timeout parameter. In every state
  its run over the ids 1, 2 and 3 resumes each of its three \<^verbatim>\<open>await\<close>s with 200, and its
  own promise, the composed result, is fulfilled with \<^verbatim>\<open>undefined\<close>, not with the array of
  the three values. In every state, a fetch of any id is fulfilled with 200.
\<close>

theorem getAllData_three_fetches_200:
  "(\<exists>w'. getAllData w = Some (Fulfilled JUndefined, w') \<and>
      trace w' = trace w @
        [Issued (JNumber 1), Resumed (JNumber 1) (Fulfilled (JNumber 200)),
         Issued (JNumber 2), Resumed (JNumber 2) (Fulfilled (JNumber 200)),
         Issued (JNumber 3), Resumed (JNumber 3) (Fulfilled (JNumber 200))])
   \<and> settled (await_getData dataID v) = Some (Fulfilled (JNumber 200))"
proof -
  obtain w1 where 1: "log_then_await getData ''getting data 1'' (JNumber 1) w
      = Some (Fulfilled (JNumber 200), w1)"
    using log_then_await_fulfils by blast
  obtain w2 where 2: "log_then_await getData ''getting data 2'' (JNumber 2) w1
      = Some (Fulfilled (JNumber 200), w2)"
    using log_then_await_fulfils by blast
  obtain w3 where 3: "log_then_await getData ''getting data 3'' (JNumber 3) w2
      = Some (Fulfilled (JNumber 200), w3)"
    using log_then_await_fulfils by blast
  have run: "getAllData w = Some (Fulfilled JUndefined, w3)"
    using 1 2 3 by (simp add: getAllData_def getAllData_with_def)
  have tr: "trace w3 = trace w @
        [Issued (JNumber 1), Resumed (JNumber 1) (Fulfilled (JNumber 200)),
         Issued (JNumber 2), Resumed (JNumber 2) (Fulfilled (JNumber 200)),
         Issued (JNumber 3), Resumed (JNumber 3) (Fulfilled (JNumber 200))]"
    using log_then_await_trace [OF 1] log_then_await_trace [OF 2] log_then_await_trace [OF 3]
    by simp
  obtain v' where "await_getData dataID v = Some (Fulfilled (JNumber 200), v')"
    using await_getData_fulfils by blast
  then have "settled (await_getData dataID v) = Some (Fulfilled (JNumber 200))"
    by (simp add: settled_def)
  with run tr show ?thesis by blast
qed

theorem getAllData_three_fetches_200_witness:
  "(\<exists>w'. getAllData world0 = Some (Fulfilled JUndefined, w') \<and>
      trace w' =
        [Issued (JNumber 1), Resumed (JNumber 1) (Fulfilled (JNumber 200)),
         Issued (JNumber 2), Resumed (JNumber 2) (Fulfilled (JNumber 200)),
         Issued (JNumber 3), Resumed (JNumber 3) (Fulfilled (JNumber 200))])
   \<and> settled (await_getData (JString ''x'') busy_world) = Some (Fulfilled (JNumber 200))"
  using getAllData_three_fetches_200 [of world0 "JString ''x''" busy_world]
  by (simp add: world0_def)

text \<open>
  Claim C2 as stated fails: the composed result of the run over the ids 1, 2, 3 is not
  \<^verbatim>\<open>[200, 200, 200]\<close>.
\<close>

theorem getAllData_not_array_of_200:
  "settled (getAllData world0) \<noteq>
     Some (Fulfilled (JArray [JNumber 200, JNumber 200, JNumber 200]))"
  by (simp add: getAllData_quiescent world0_def settled_def)

text \<open>
  Claim C3, as amended. \<^verbatim>\<open>getData\<close> takes neither a delay nor a timeout cap. For every id
  and in every state, the fetch eventually yields the value 200 (the \<^verbatim>\<open>await\<close> resumes with
  the fulfilment), and it is never rejected, with a \<^verbatim>\<open>TimeoutError\<close> or with anything else.
\<close>

theorem getData_never_times_out:
  "settled (await_getData dataID w) = Some (Fulfilled (JNumber 200)) \<and>
   settled (await_getData dataID w) \<noteq> Some (Rejected (JError ''TimeoutError'')) \<and>
   (\<forall>e. settled (await_getData dataID w) \<noteq> Some (Rejected e))"
proof -
  obtain w' where "await_getData dataID w = Some (Fulfilled (JNumber 200), w')"
    using await_getData_fulfils by blast
  then show ?thesis by (simp add: settled_def)
qed

theorem getData_never_times_out_witness:
  "settled (await_getData (JNumber 1) busy_world) = Some (Fulfilled (JNumber 200)) \<and>
   settled (await_getData (JNumber 1) busy_world) \<noteq> Some (Rejected (JError ''TimeoutError''))"
  using getData_never_times_out [of "JNumber 1" busy_world] by simp

text \<open>
  Claim C3 as stated fails: with the cap of 1000 ms of the specification's example, the
  delay of 3000 ms exceeds the cap, and the fetch of id 1 is still fulfilled with 200 at
  time 3000.
\<close>

theorem getData_no_timeout:
  "(1000 :: nat) < 3000 \<and>
   await_getData (JNumber 1) world0 =
     Some (Fulfilled (JNumber 200),
       \<lparr>now = 3000, timers = [], promises = [Some (Fulfilled (JNumber 200))],
        console = [[JString ''data'', JNumber 1]], trace = []\<rparr>)"
  by (simp add: await_getData_quiescent world0_def)




text \<open>
  Claim C9. For every \<open>dataID\<close> and in every state (whatever timers are pending and
  whatever the promise store holds), awaiting the promise returned by \<^verbatim>\<open>getData\<close> resumes,
  and resumes with a fulfilment: the promise is never rejected and never stays pending.
\<close>

theorem getData_always_fulfils:
  "\<exists>w'. await_getData dataID w = Some (Fulfilled (JNumber 200), w')"
  by (rule await_getData_fulfils)

theorem getData_always_fulfils_witness:
  "\<exists>w'. await_getData (JNumber 5) busy_world = Some (Fulfilled (JNumber 200), w')"
  using getData_always_fulfils [of "JNumber 5" busy_world] by simp

text \<open>
  Claim C10. In every state the promise of \<^verbatim>\<open>getAllData\<close> is fulfilled with \<^verbatim>\<open>undefined\<close>;
  and whatever the fetch function resolves its promises with, a fulfilled run of the body
  of \<^verbatim>\<open>getAllData\<close> yields \<^verbatim>\<open>undefined\<close>: the awaited values are discarded.
\<close>

theorem getAllData_resolves_undefined:
  "settled (getAllData w) = Some (Fulfilled JUndefined) \<and>
   (getAllData_with gd w = Some (Fulfilled v, w') \<longrightarrow> v = JUndefined)"
proof -
  obtain u where "getAllData w = Some (Fulfilled JUndefined, u)"
    using getAllData_fulfils by blast
  then have "settled (getAllData w) = Some (Fulfilled JUndefined)"
    by (simp add: settled_def)
  moreover have "v = JUndefined" if "getAllData_with gd w = Some (Fulfilled v, w')"
    using that
    by (auto simp: getAllData_with_def split: option.splits outcome.splits prod.splits)
  ultimately show ?thesis by blast
qed

theorem getAllData_resolves_undefined_witness:
  "settled (getAllData world0) = Some (Fulfilled JUndefined) \<and>
   getAllData_with getData world0 =
     Some (Fulfilled JUndefined,
       \<lparr>now = 9000, timers = [],
        promises = [Some (Fulfilled (JNumber 200)), Some (Fulfilled (JNumber 200)),
          Some (Fulfilled (JNumber 200))],
        console =
          [[JString ''getting data 1''], [JString ''data'', JNumber 1],
           [JString ''getting data 2''], [JString ''data'', JNumber 2],
           [JString ''getting data 3''], [JString ''data'', JNumber 3]],
        trace =
          [Issued (JNumber 1), Resumed (JNumber 1) (Fulfilled (JNumber 200)),
           Issued (JNumber 2), Resumed (JNumber 2) (Fulfilled (JNumber 200)),
           Issued (JNumber 3), Resumed (JNumber 3) (Fulfilled (JNumber 200))]\<rparr>)"
proof -
  have "timers world0 = []" by (simp add: world0_def)
  from getAllData_quiescent [OF this]
  have run: "getAllData_with getData world0 =
     Some (Fulfilled JUndefined,
       \<lparr>now = 9000, timers = [],
        promises = [Some (Fulfilled (JNumber 200)), Some (Fulfilled (JNumber 200)),
          Some (Fulfilled (JNumber 200))],
        console =
          [[JString ''getting data 1''], [JString ''data'', JNumber 1],
           [JString ''getting data 2''], [JString ''data'', JNumber 2],
           [JString ''getting data 3''], [JString ''data'', JNumber 3]],
        trace =
          [Issued (JNumber 1), Resumed (JNumber 1) (Fulfilled (JNumber 200)),
           Issued (JNumber 2), Resumed (JNumber 2) (Fulfilled (JNumber 200)),
           Issued (JNumber 3), Resumed (JNumber 3) (Fulfilled (JNumber 200))]\<rparr>)"
    by (simp add: getAllData_def world0_def)
  with getAllData_resolves_undefined [of world0 getData JUndefined] show ?thesis
    by simp
qed

section \<open>The patterns of the guide: parallel fetches and the tolerant chain\<close>

text \<open>
  Claim C6. When every fetch is fulfilled, \<^verbatim>\<open>getMultipleUsers\<close> is fulfilled with the array
  that holds, at each index, the value fetched for the id at that index of \<^verbatim>\<open>userIds\<close>,
  whatever the settle times of the fetches, hence whatever their completion order; every
  id is requested once, in input order, and nothing is printed.
\<close>

theorem getMultipleUsers_input_order:
  "getMultipleUsers (\<lambda>id. (delay id, Fulfilled (val id))) userIds t =
     (Some (Fulfilled (JArray (map val userIds))),
      fold (request ''fetchFromDatabase'') userIds t)"
proof -
  have "map (\<lambda>id. (delay id, Fulfilled (val id))) userIds
      = map (\<lambda>(d, v). (d, Fulfilled v)) (map (\<lambda>id. (delay id, val id)) userIds)"
    by simp
  then have "promise_all (map (\<lambda>id. (delay id, Fulfilled (val id))) userIds)
      = Some (Fulfilled (map snd (map (\<lambda>id. (delay id, val id)) userIds)))"
    by (simp only: promise_all_fulfilled)
  then show ?thesis
    by (simp add: getMultipleUsers_def comp_def)
qed

theorem getMultipleUsers_input_order_witness:
  "completion_order (map (\<lambda>id. (slow_first id, Fulfilled (JObject [(''id'', id)])))
        [JNumber 1, JNumber 2, JNumber 3]) =
     [(2, Fulfilled (JObject [(''id'', JNumber 3)])),
      (1, Fulfilled (JObject [(''id'', JNumber 2)])),
      (0, Fulfilled (JObject [(''id'', JNumber 1)]))]
   \<and>
   getMultipleUsers (\<lambda>id. (slow_first id, Fulfilled (JObject [(''id'', id)])))
       [JNumber 1, JNumber 2, JNumber 3] effects0 =
     (Some (Fulfilled (JArray
        [JObject [(''id'', JNumber 1)], JObject [(''id'', JNumber 2)],
         JObject [(''id'', JNumber 3)]])),
      \<lparr>printed = [],
       requested = [(''fetchFromDatabase'', JNumber 1), (''fetchFromDatabase'', JNumber 2),
         (''fetchFromDatabase'', JNumber 3)]\<rparr>)"
  using getMultipleUsers_input_order
    [of slow_first "\<lambda>id. JObject [(''id'', id)]" "[JNumber 1, JNumber 2, JNumber 3]" effects0]
  by (simp add: completion_order_def slow_first_def effects0_def request_def enumerate_eq_zip
      upt_rec [of 0] upt_rec [of 1] upt_rec [of 2])

text \<open>
  Claim C5. When the first stage of \<^verbatim>\<open>robustGetUserData\<close> is fulfilled and the second
  fails (reading \<^verbatim>\<open>user.id\<close> throws, or the promise of \<^verbatim>\<open>fetchUserPosts\<close> is rejected), the
  result is fulfilled with the object that holds the user, the empty array for the posts
  and the empty array for the comments; one warning is printed and \<^verbatim>\<open>fetchPostComments\<close>
  is not called. The result is rejected exactly when the promise of \<^verbatim>\<open>fetchFromDatabase\<close>
  is.
\<close>

theorem robustGetUserData_second_stage_failure:
  "(fetchFromDatabase userId = Fulfilled user \<and>
    (get_id user = Inl e \<or> (get_id user = Inr uid \<and> fetchUserPosts uid = Rejected e)) \<longrightarrow>
      robustGetUserData fetchFromDatabase fetchUserPosts fetchPostComments userId t =
        (Fulfilled (JObject [(''user'', user), (''posts'', JArray []), (''comments'', JArray [])]),
         t\<lparr>printed := printed t @
              [(ConsoleWarn, [JString ''Failed to fetch posts, continuing with empty array''])],
           requested := requested t @ (''fetchFromDatabase'', userId) #
              (case get_id user of Inl x \<Rightarrow> [] | Inr i \<Rightarrow> [(''fetchUserPosts'', i)])\<rparr>))
   \<and>
   ((\<exists>x. fst (robustGetUserData fetchFromDatabase fetchUserPosts fetchPostComments userId t)
        = Rejected x)
      = (\<exists>x. fetchFromDatabase userId = Rejected x))"
proof -
  have fatal: "(\<exists>x. fst (robustGetUserData fetchFromDatabase fetchUserPosts fetchPostComments
        userId t) = Rejected x) = (\<exists>x. fetchFromDatabase userId = Rejected x)"
    by (cases "fetchFromDatabase userId")
       (simp_all add: robustGetUserData_def Let_def case_prod_unfold)
  have "robustGetUserData fetchFromDatabase fetchUserPosts fetchPostComments userId t =
        (Fulfilled (JObject [(''user'', user), (''posts'', JArray []), (''comments'', JArray [])]),
         t\<lparr>printed := printed t @
              [(ConsoleWarn, [JString ''Failed to fetch posts, continuing with empty array''])],
           requested := requested t @ (''fetchFromDatabase'', userId) #
              (case get_id user of Inl x \<Rightarrow> [] | Inr i \<Rightarrow> [(''fetchUserPosts'', i)])\<rparr>)"
    if "fetchFromDatabase userId = Fulfilled user"
      and "get_id user = Inl e \<or> (get_id user = Inr uid \<and> fetchUserPosts uid = Rejected e)"
    using that
    by (auto simp: robustGetUserData_def Let_def print_line_def request_def)
  with fatal show ?thesis by blast
qed

theorem robustGetUserData_second_stage_failure_witness:
  "robustGetUserData (\<lambda>x. Fulfilled (JObject [(''id'', JNumber 7)]))
       (\<lambda>x. Rejected (JError ''Error'')) (\<lambda>x. Fulfilled (JArray [JString ''c'']))
       (JNumber 1) effects0 =
     (Fulfilled (JObject [(''user'', JObject [(''id'', JNumber 7)]), (''posts'', JArray []),
        (''comments'', JArray [])]),
      \<lparr>printed =
         [(ConsoleWarn, [JString ''Failed to fetch posts, continuing with empty array''])],
       requested = [(''fetchFromDatabase'', JNumber 1), (''fetchUserPosts'', JNumber 7)]\<rparr>)"
  using robustGetUserData_second_stage_failure
    [of "\<lambda>x. Fulfilled (JObject [(''id'', JNumber 7)])" "JNumber 1"
        "JObject [(''id'', JNumber 7)]" "JError ''Error''" "JNumber 7"
        "\<lambda>x. Rejected (JError ''Error'')" "\<lambda>x. Fulfilled (JArray [JString ''c''])" effects0]
  by (simp add: effects0_def)

end
